theory Spec2Isabelle
  imports Main "HOL-Library.Multiset" "HOL-Library.Code_Target_Nat"
begin

section \<open>Strings\<close>

text \<open>
  A Python \<open>str\<close> is modelled as a \<^typ>\<open>string\<close>: a list of characters, each
  character being one code point below 256 (the Latin-1 range, which contains ASCII).
  On this range \<open>str.isspace\<close> holds for the code points 9 to 13, 28 to 32, 133 and 160,
  and \<open>str.lower\<close> adds 32 to the code points 65 to 90 and 192 to 222 other than 215
  and leaves every other code point alone. Strings with code points from 256 on are
  outside this type: there \<open>str.lower\<close> is no longer character by character (it
  lowercases the Greek capital sigma by its context); a later section takes them up.

  \<open>strip\<close> is \<open>str.strip()\<close>, \<open>split\<close> is \<open>str.split()\<close> without arguments (skip
  whitespace, take the characters up to the next whitespace, repeat), \<open>join sep\<close> is
  \<open>sep.join\<close>, and \<open>normalize\<close> is the function of that name:
  \<^verbatim>\<open>return " ".join(value.split()).lower()\<close>
\<close>

definition isspace :: "char \<Rightarrow> bool" where
  "isspace c =
     (let n = (of_char c :: nat)
      in (9 \<le> n \<and> n \<le> 13) \<or> (28 \<le> n \<and> n \<le> 32) \<or> n = 133 \<or> n = 160)"

definition lower_char :: "char \<Rightarrow> char" where
  "lower_char c =
     (let n = (of_char c :: nat)
      in if (65 \<le> n \<and> n \<le> 90) \<or> (192 \<le> n \<and> n \<le> 222 \<and> n \<noteq> 215)
         then char_of (n + 32) else c)"

definition lower :: "string \<Rightarrow> string" where
  "lower s = map lower_char s"

definition strip :: "string \<Rightarrow> string" where
  "strip s = rev (dropWhile isspace (rev (dropWhile isspace s)))"

function split :: "string \<Rightarrow> string list" where
  "split s =
     (let s' = dropWhile isspace s
      in if s' = [] then []
         else takeWhile (\<lambda>c. \<not> isspace c) s' # split (dropWhile (\<lambda>c. \<not> isspace c) s'))"
  by pat_completeness auto
termination
proof (relation "measure length")
  show "wf (measure length)" by simp
next
  fix s s' :: string
  assume s': "s' = dropWhile isspace s" and ne: "s' \<noteq> []"
  from ne obtain c cs where cs: "s' = c # cs" by (cases s') auto
  from s' cs have "\<not> isspace c"
    using dropWhile_eq_Cons_conv [of isspace s c cs] by simp
  then have "length (dropWhile (\<lambda>c. \<not> isspace c) s') \<le> length cs"
    using cs by (simp add: length_dropWhile_le)
  moreover have "length s' \<le> length s" using s' by (simp add: length_dropWhile_le)
  ultimately show "(dropWhile (\<lambda>c. \<not> isspace c) s', s) \<in> measure length"
    using cs by simp
qed

fun join :: "'a list \<Rightarrow> 'a list list \<Rightarrow> 'a list" where
  "join sep [] = []"
| "join sep [w] = w"
| "join sep (w # ws) = w @ sep @ join sep ws"

definition normalize :: "string \<Rightarrow> string" where
  "normalize v = lower (join '' '' (split v))"

section \<open>The table\<close>

text \<open>
  The database file holds at most one table, \<open>data\<close>. A connection is modelled by the
  state of that table: \<open>None\<close> when the table does not exist, otherwise its rows together
  with the counter that \<open>AUTOINCREMENT\<close> keeps for it. A statement that names a missing
  table raises \<open>sqlite3.OperationalError\<close>; an \<open>INSERT\<close> that would repeat a
  \<open>value_norm\<close> raises \<open>sqlite3.IntegrityError\<close>. The columns \<open>id\<close> and \<open>value\<close> are
  the fields \<open>row_id\<close> and \<open>row_value\<close>. Dropping the table also drops its counter,
  so the ids start again at 1.
\<close>

datatype error = EOFError | AttributeError | OperationalError | IntegrityError

record entry =
  row_id :: nat
  row_value :: string
  value_norm :: string
  created_at :: string

record table =
  rows :: "entry list"
  seq :: nat

type_synonym db = "table option"

definition connect :: "db \<Rightarrow> db" where
  "connect file = file"

definition drop_table_if_exists :: "db \<Rightarrow> db" where
  "drop_table_if_exists conn = None"

definition create_table_if_not_exists :: "db \<Rightarrow> db" where
  "create_table_if_not_exists conn =
     (case conn of None \<Rightarrow> Some \<lparr>rows = [], seq = 0\<rparr> | Some t \<Rightarrow> Some t)"

definition init_db :: "db \<Rightarrow> bool \<Rightarrow> db" where
  "init_db conn reset =
     create_table_if_not_exists (if reset then drop_table_if_exists conn else conn)"

text \<open>\<open>SELECT 1 FROM data WHERE value_norm = ? LIMIT 1\<close>, then \<open>fetchone() is not None\<close>.\<close>

definition select_exists :: "db \<Rightarrow> string \<Rightarrow> error + bool" where
  "select_exists conn v_norm =
     (case conn of
        None \<Rightarrow> Inl OperationalError
      | Some t \<Rightarrow> Inr (v_norm \<in> set (map value_norm (rows t))))"

text \<open>
  \<open>INSERT INTO data (value, value_norm, created_at) VALUES (?, ?, ?)\<close>. The new row
  gets an id one above the largest id the table has ever held. An id is a signed
  64-bit integer: once the largest one has been held, the \<open>INSERT\<close> fails
  (\<open>SQLITE_FULL\<close>, raised as \<open>sqlite3.OperationalError\<close>). The id is chosen before the
  \<open>UNIQUE\<close> constraint is checked.
\<close>

definition max_rowid :: nat where
  "max_rowid = 9223372036854775807"

definition top_id :: "table \<Rightarrow> nat" where
  "top_id t = max (seq t) (fold max (map row_id (rows t)) 0)"

definition next_id :: "table \<Rightarrow> nat" where
  "next_id t = Suc (top_id t)"

definition add_row :: "table \<Rightarrow> string \<Rightarrow> string \<Rightarrow> string \<Rightarrow> table" where
  "add_row t v v_norm now =
     t\<lparr>rows := rows t @
         [\<lparr>row_id = next_id t, row_value = v, value_norm = v_norm, created_at = now\<rparr>],
       seq := next_id t\<rparr>"

definition insert_row :: "db \<Rightarrow> string \<Rightarrow> string \<Rightarrow> string \<Rightarrow> error + db" where
  "insert_row conn v v_norm now =
     (case conn of
        None \<Rightarrow> Inl OperationalError
      | Some t \<Rightarrow>
          if max_rowid \<le> top_id t then Inl OperationalError
          else if v_norm \<in> set (map value_norm (rows t)) then Inl IntegrityError
          else Inr (Some (add_row t v v_norm now)))"

text \<open>\<open>SELECT id, value, created_at FROM data ORDER BY id\<close>, then \<open>fetchall()\<close>.\<close>

definition select_all :: "db \<Rightarrow> error + (nat \<times> string \<times> string) list" where
  "select_all conn =
     (case conn of
        None \<Rightarrow> Inl OperationalError
      | Some t \<Rightarrow> Inr (map (\<lambda>r. (row_id r, row_value r, created_at r)) (sort_key row_id (rows t))))"

section \<open>Classifying and inserting\<close>

text \<open>
  The three results of \<open>classify\<close> are the strings \<open>false_positive\<close>, \<open>redundant\<close> and
  \<open>unique\<close>; the specification calls them invalid, duplicate and novel.
\<close>

datatype cls = False_positive | Redundant | Unique

definition classify :: "db \<Rightarrow> string option \<Rightarrow> error + cls" where
  "classify conn raw_value =
     (case raw_value of
        None \<Rightarrow> Inr False_positive
      | Some raw \<Rightarrow>
          (let v = strip raw
           in if v = [] then Inr False_positive
              else (let v_norm = normalize v
                    in case select_exists conn v_norm of
                         Inl e \<Rightarrow> Inl e
                       | Inr found \<Rightarrow> Inr (if found then Redundant else Unique))))"

text \<open>
  Each \<open>print\<close> is one element of the output; the wording of the lines is left out.
\<close>

datatype out =
    Out_banner
  | Out_help
  | Out_prompt
  | Out_false_positive
  | Out_redundant "string option"
  | Out_inserted string
  | Out_reset
  | Out_empty
  | Out_entries
  | Out_row "nat \<times> string \<times> string"

text \<open>
  \<open>insert_unique\<close> reads the table twice: in \<open>classify\<close> and in the \<open>INSERT\<close>. The
  database is a file that other connections may write to, so the model takes what
  they do between the two reads as the argument \<open>others\<close> (the identity when nobody
  else writes), and the time \<open>datetime.utcnow()\<close> returns as the argument \<open>now\<close>.
\<close>

definition insert_unique ::
  "(db \<Rightarrow> db) \<Rightarrow> string \<Rightarrow> db \<Rightarrow> string option \<Rightarrow> error + (db \<times> out list)" where
  "insert_unique others now conn raw_value =
     (case classify conn raw_value of
        Inl e \<Rightarrow> Inl e
      | Inr False_positive \<Rightarrow> Inr (conn, [Out_false_positive])
      | Inr Redundant \<Rightarrow> Inr (conn, [Out_redundant raw_value])
      | Inr Unique \<Rightarrow>
          (case raw_value of
             None \<Rightarrow> Inl AttributeError
           | Some raw \<Rightarrow>
               (let v = strip raw; v_norm = normalize v
                in case insert_row (others conn) v v_norm now of
                     Inr conn' \<Rightarrow> Inr (conn', [Out_inserted v])
                   | Inl IntegrityError \<Rightarrow> Inr (others conn, [Out_redundant raw_value])
                   | Inl e \<Rightarrow> Inl e)))"

definition show_data :: "db \<Rightarrow> error + out list" where
  "show_data conn =
     (case select_all conn of
        Inl e \<Rightarrow> Inl e
      | Inr rs \<Rightarrow> if rs = [] then Inr [Out_empty] else Inr (Out_entries # map Out_row rs))"

section \<open>The session\<close>

text \<open>
  Standard input is the list of the lines it holds before its end, each paired with
  the time at which the program handles it. \<open>input()\<close> prints the prompt and returns
  the next line; at the end of the input it raises \<open>EOFError\<close>. An exception that
  nothing catches ends the process with exit code 1, a return from \<open>main\<close> with 0.
\<close>

datatype status = Exit_ok | Uncaught error


definition emit :: "out list \<Rightarrow> status \<times> db \<times> out list \<Rightarrow> status \<times> db \<times> out list" where
  "emit os r = (case r of (s, conn, printed) \<Rightarrow> (s, conn, os @ printed))"

fun main_loop :: "db \<Rightarrow> (string \<times> string) list \<Rightarrow> status \<times> db \<times> out list" where
  "main_loop conn [] = (Uncaught EOFError, conn, [Out_prompt])"
| "main_loop conn ((line, now) # rest) =
     (let user_input = strip line
      in if lower user_input = ''exit'' then (Exit_ok, conn, [Out_prompt])
         else if lower user_input = ''show'' then
           (case show_data conn of
              Inl e \<Rightarrow> (Uncaught e, conn, [Out_prompt])
            | Inr shown \<Rightarrow> emit (Out_prompt # shown) (main_loop conn rest))
         else if lower user_input = ''reset'' then
           (let conn' = init_db conn True
            in case show_data conn' of
                 Inl e \<Rightarrow> (Uncaught e, conn', [Out_prompt, Out_reset])
               | Inr shown \<Rightarrow> emit (Out_prompt # Out_reset # shown) (main_loop conn' rest))
         else
           (case insert_unique (\<lambda>d. d) now conn (Some user_input) of
              Inl e \<Rightarrow> (Uncaught e, conn, [Out_prompt])
            | Inr (conn', msgs) \<Rightarrow>
                (case show_data conn' of
                   Inl e \<Rightarrow> (Uncaught e, conn', Out_prompt # msgs)
                 | Inr shown \<Rightarrow> emit (Out_prompt # msgs @ shown) (main_loop conn' rest))))"

definition main :: "bool \<Rightarrow> db \<Rightarrow> (string \<times> string) list \<Rightarrow> status \<times> db \<times> out list" where
  "main reset file stdin =
     (let conn = connect file;
          conn = init_db conn reset
      in emit [Out_banner, Out_help] (main_loop conn stdin))"

section \<open>The specification's reading of normalize\<close>

text \<open>
  The specification describes \<open>normalize\<close> in three steps: every run of whitespace
  becomes one space, leading and trailing spaces are removed, every character is
  lowercased. \<open>normalize_spec\<close> follows these words, for comparison with the code.
\<close>

function collapse :: "string \<Rightarrow> string" where
  "collapse [] = []"
| "collapse (c # s) =
     (if isspace c then CHR '' '' # collapse (dropWhile isspace s) else c # collapse s)"
  by pat_completeness auto
termination
  by (relation "measure length") (simp_all add: length_dropWhile_le le_imp_less_Suc)

definition strip_space :: "string \<Rightarrow> string" where
  "strip_space s =
     rev (dropWhile (\<lambda>c. c = CHR '' '') (rev (dropWhile (\<lambda>c. c = CHR '' '') s)))"

definition normalize_spec :: "string \<Rightarrow> string" where
  "normalize_spec s = lower (strip_space (collapse s))"

text \<open>
  Two strings differ only in letter case or in the length of their whitespace runs:
  they are read side by side, a character against a character with the same lowercase
  form, a nonempty run of whitespace against a nonempty run of whitespace.
\<close>

inductive differ_only :: "string \<Rightarrow> string \<Rightarrow> bool" where
  same_end: "differ_only [] []"
| letter_case: "lower_char c = lower_char d \<Longrightarrow> differ_only s t \<Longrightarrow> differ_only (c # s) (d # t)"
| run_length: "u \<noteq> [] \<Longrightarrow> v \<noteq> [] \<Longrightarrow> list_all isspace u \<Longrightarrow> list_all isspace v \<Longrightarrow>
     differ_only s t \<Longrightarrow> differ_only (u @ s) (v @ t)"

text \<open>Removing trailing spaces alone, used to relate the two readings.\<close>

definition rstrip_space :: "string \<Rightarrow> string" where
  "rstrip_space s = rev (dropWhile (\<lambda>c. c = CHR '' '') (rev s))"

section \<open>Strings beyond code point 255\<close>

text \<open>
  In general a Python \<open>str\<close> is a list of code points. \<open>str.lower\<close> replaces every code
  point by its lowercase mapping, except the Greek capital sigma (931): it becomes the
  final small sigma (962) when, skipping case-ignorable code points, a cased code point
  stands before it and none stands after it, and the small sigma (963) otherwise.
  This section gives \<open>normalize\<close> on the code points below 256 together with the Greek
  letters capital alpha (913), capital sigma (931), small alpha (945), final small
  sigma (962) and small sigma (963); a string with any other code point is not
  covered and gets \<open>None\<close>. None of the five letters is whitespace or case-ignorable.
\<close>

definition covered :: "nat \<Rightarrow> bool" where
  "covered c = (c < 256 \<or> c = 913 \<or> c = 931 \<or> c = 945 \<or> c = 962 \<or> c = 963)"

definition isspace_wide :: "nat \<Rightarrow> bool" where
  "isspace_wide n = ((9 \<le> n \<and> n \<le> 13) \<or> (28 \<le> n \<and> n \<le> 32) \<or> n = 133 \<or> n = 160)"

definition case_ignorable :: "nat \<Rightarrow> bool" where
  "case_ignorable n = (n \<in> set [39, 46, 58, 94, 96, 168, 173, 175, 180, 183, 184])"

definition cased :: "nat \<Rightarrow> bool" where
  "cased n =
     ((65 \<le> n \<and> n \<le> 90) \<or> (97 \<le> n \<and> n \<le> 122) \<or> n = 170 \<or> n = 181 \<or> n = 186 \<or>
      (192 \<le> n \<and> n \<le> 214) \<or> (216 \<le> n \<and> n \<le> 246) \<or> (248 \<le> n \<and> n \<le> 255) \<or>
      n = 913 \<or> n = 931 \<or> n = 945 \<or> n = 962 \<or> n = 963)"

definition to_lower :: "nat \<Rightarrow> nat" where
  "to_lower n =
     (if (65 \<le> n \<and> n \<le> 90) \<or> (192 \<le> n \<and> n \<le> 222 \<and> n \<noteq> 215) then n + 32
      else if n = 913 then 945
      else if n = 931 then 963
      else n)"

definition final_sigma :: "nat list \<Rightarrow> nat list \<Rightarrow> bool" where
  "final_sigma seen rest =
     (case dropWhile case_ignorable seen of
        [] \<Rightarrow> False
      | c # _ \<Rightarrow>
          cased c \<and>
          (case dropWhile case_ignorable rest of [] \<Rightarrow> True | d # _ \<Rightarrow> \<not> cased d))"

fun lower_from :: "nat list \<Rightarrow> nat list \<Rightarrow> nat list" where
  "lower_from seen [] = []"
| "lower_from seen (c # s) =
     (if c = 931 then (if final_sigma seen s then 962 else 963) else to_lower c)
       # lower_from (c # seen) s"

definition lower_wide :: "nat list \<Rightarrow> nat list" where
  "lower_wide s = lower_from [] s"

function split_wide :: "nat list \<Rightarrow> nat list list" where
  "split_wide s =
     (let s' = dropWhile isspace_wide s
      in if s' = [] then []
         else takeWhile (\<lambda>c. \<not> isspace_wide c) s'
                # split_wide (dropWhile (\<lambda>c. \<not> isspace_wide c) s'))"
  by pat_completeness auto
termination
proof (relation "measure length")
  show "wf (measure length)" by simp
next
  fix s s' :: "nat list"
  assume s': "s' = dropWhile isspace_wide s" and ne: "s' \<noteq> []"
  from ne obtain c cs where cs: "s' = c # cs" by (cases s') auto
  from s' cs have "\<not> isspace_wide c"
    using dropWhile_eq_Cons_conv [of isspace_wide s c cs] by simp
  then have "length (dropWhile (\<lambda>c. \<not> isspace_wide c) s') \<le> length cs"
    using cs by (simp add: length_dropWhile_le)
  moreover have "length s' \<le> length s" using s' by (simp add: length_dropWhile_le)
  ultimately show "(dropWhile (\<lambda>c. \<not> isspace_wide c) s', s) \<in> measure length"
    using cs by simp
qed

definition normalize_wide :: "nat list \<Rightarrow> nat list option" where
  "normalize_wide v =
     (if list_all covered v then Some (lower_wide (join [32] (split_wide v))) else None)"

section \<open>Reachable states\<close>

text \<open>
  The states of the table that the program alone can produce: a database file without
  the table, then any sequence of \<open>init_db\<close> (with or without reset) and
  \<open>insert_unique\<close> calls that return.
\<close>

inductive reachable :: "db \<Rightarrow> bool" where
  fresh: "reachable None"
| init: "reachable conn \<Longrightarrow> reachable (init_db conn reset)"
| insert: "reachable conn \<Longrightarrow> insert_unique (\<lambda>d. d) now conn raw_value = Inr (conn', msgs) \<Longrightarrow>
     reachable conn'"

definition entries :: "db \<Rightarrow> entry list" where
  "entries conn = (case conn of None \<Rightarrow> [] | Some t \<Rightarrow> rows t)"


section \<open>Example states\<close>

text \<open>
  Two tables that the program produces from an empty database file, a second
  connection that inserts the value \<open>hello  world\<close> on its own, a table that has held
  the largest id, and a table whose rows are not stored in the order of their ids.
\<close>

definition one_row :: table where
  "one_row = \<lparr>rows = [\<lparr>row_id = 1, row_value = ''Hello World'',
      value_norm = ''hello world'', created_at = ''t1''\<rparr>], seq = 1\<rparr>"

definition two_rows :: table where
  "two_rows = \<lparr>rows = [\<lparr>row_id = 1, row_value = ''Hello World'',
      value_norm = ''hello world'', created_at = ''t1''\<rparr>,
     \<lparr>row_id = 2, row_value = ''Foo  Bar'', value_norm = ''foo bar'', created_at = ''t2''\<rparr>],
     seq = 2\<rparr>"

definition rival :: "db \<Rightarrow> db" where
  "rival conn =
     (case insert_row conn ''hello  world'' ''hello world'' ''t1'' of
        Inl e \<Rightarrow> conn | Inr conn' \<Rightarrow> conn')"

definition full_table :: table where
  "full_table = \<lparr>rows = [\<lparr>row_id = 9223372036854775807, row_value = ''Old'',
      value_norm = ''old'', created_at = ''t0''\<rparr>], seq = 9223372036854775807\<rparr>"

definition unordered_rows :: table where
  "unordered_rows = \<lparr>rows = [\<lparr>row_id = 2, row_value = ''Foo  Bar'', value_norm = ''foo bar'',
      created_at = ''t2''\<rparr>,
     \<lparr>row_id = 1, row_value = ''Hello World'', value_norm = ''hello world'',
      created_at = ''t1''\<rparr>], seq = 2\<rparr>"

section \<open>Characters and words\<close>

lemma of_char_less: "(of_char c :: nat) < 256"
  by (cases c) (simp add: of_char_def)

lemma isspace_lower_char: "isspace (lower_char c) = isspace c"
  using of_char_less [of c]
  by (auto simp add: isspace_def lower_char_def Let_def of_char_of)

lemma lower_char_idem: "lower_char (lower_char c) = lower_char c"
  using of_char_less [of c]
  by (auto simp add: lower_char_def Let_def of_char_of)

lemma lower_char_space: "lower_char CHR '' '' = CHR '' ''"
  by (simp add: lower_char_def)

lemma isspace_space: "isspace CHR '' ''"
  by (simp add: isspace_def)

declare split.simps [simp del]

lemma split_Nil: "split [] = []"
  by (simp add: split.simps)

lemma split_space: "isspace c \<Longrightarrow> split (c # s) = split s"
  by (subst split.simps, subst (2) split.simps) simp

lemma split_word:
  "\<not> isspace c \<Longrightarrow>
   split (c # s) = (c # takeWhile (\<lambda>c. \<not> isspace c) s) # split (dropWhile (\<lambda>c. \<not> isspace c) s)"
  by (subst split.simps) simp

lemma split_dropWhile: "split (dropWhile isspace s) = split s"
  by (induction s) (simp_all add: split_space)

lemma split_induct [case_names Nil space word]:
  assumes "P []"
    and "\<And>c s. isspace c \<Longrightarrow> P s \<Longrightarrow> P (c # s)"
    and "\<And>c s. \<not> isspace c \<Longrightarrow> P (dropWhile (\<lambda>c. \<not> isspace c) s) \<Longrightarrow> P (c # s)"
  shows "P s"
proof (induction s rule: length_induct)
  case (1 xs)
  show ?case
  proof (cases xs)
    case Nil
    with assms(1) show ?thesis by simp
  next
    case (Cons c cs)
    show ?thesis
    proof (cases "isspace c")
      case True
      with 1 Cons assms(2) show ?thesis by simp
    next
      case False
      have "length (dropWhile (\<lambda>c. \<not> isspace c) cs) < length xs"
        using Cons length_dropWhile_le [of "\<lambda>c. \<not> isspace c" cs] by simp
      with 1 have "P (dropWhile (\<lambda>c. \<not> isspace c) cs)" by blast
      with False Cons assms(3) show ?thesis by simp
    qed
  qed
qed

lemma split_lower: "split (lower s) = map lower (split s)"
proof (induction s rule: split_induct)
  case Nil
  show ?case by (simp add: lower_def split_Nil)
next
  case (space c s)
  then show ?case by (simp add: lower_def split_space isspace_lower_char)
next
  case (word c s)
  then show ?case
    by (simp add: lower_def split_word isspace_lower_char takeWhile_map dropWhile_map comp_def)
qed

lemma words_Cons:
  assumes "\<forall>w\<in>set W. w \<noteq> [] \<and> (\<forall>c\<in>set w. \<not> isspace c)"
    and "\<forall>x\<in>set T. \<not> isspace x" and "\<not> isspace c"
  shows "\<forall>w\<in>set ((c # T) # W). w \<noteq> [] \<and> (\<forall>c\<in>set w. \<not> isspace c)"
  using assms by auto

lemma takeWhile_all: "\<forall>x\<in>set (takeWhile P s). P x"
  using set_takeWhileD [of _ P s] by blast

lemma split_words_all: "\<forall>w\<in>set (split s). w \<noteq> [] \<and> (\<forall>c\<in>set w. \<not> isspace c)"
proof (induction s rule: split_induct)
  case Nil
  show ?case by (simp add: split_Nil)
next
  case (space c s)
  then show ?case by (simp add: split_space)
next
  case (word c s)
  have eq: "split (c # s) =
      (c # takeWhile (\<lambda>c. \<not> isspace c) s) # split (dropWhile (\<lambda>c. \<not> isspace c) s)"
    using word(1) by (rule split_word)
  show ?case unfolding eq
    by (rule words_Cons [OF word(2) takeWhile_all word(1)])
qed

lemma split_words: "w \<in> set (split s) \<Longrightarrow> w \<noteq> [] \<and> (\<forall>c\<in>set w. \<not> isspace c)"
  using split_words_all [of s] by blast

lemma lower_join: "lower (join sep ws) = join (lower sep) (map lower ws)"
  by (induction sep ws rule: join.induct) (simp_all add: lower_def)

lemma split_word_append:
  assumes "w \<noteq> []" and "\<forall>c\<in>set w. \<not> isspace c" and "r = [] \<or> isspace (hd r)"
  shows "split (w @ r) = w # split r"
proof -
  from assms(1) obtain c cs where w: "w = c # cs" by (cases w) auto
  have tw: "takeWhile (\<lambda>c. \<not> isspace c) (cs @ r) = cs"
    using assms(2,3) w by (cases r) (simp_all add: takeWhile_append)
  have dw: "dropWhile (\<lambda>c. \<not> isspace c) (cs @ r) = r"
    using assms(2,3) w by (cases r) (simp_all add: dropWhile_append)
  show ?thesis using w assms(2) by (simp add: split_word tw dw)
qed

lemma split_join:
  "\<forall>w\<in>set ws. w \<noteq> [] \<and> (\<forall>c\<in>set w. \<not> isspace c) \<Longrightarrow> split (join '' '' ws) = ws"
proof (induction "'' ''" ws rule: join.induct)
  case 1
  show ?case by (simp add: split_Nil)
next
  case (2 w)
  then show ?case using split_word_append [of w "[]"] by (simp add: split_Nil)
next
  case (3 w v va)
  then have "split (w @ CHR '' '' # join '' '' (v # va)) = w # split (CHR '' '' # join '' '' (v # va))"
    using split_word_append [of w "CHR '' '' # join '' '' (v # va)"] by (simp add: isspace_space)
  with 3 show ?case by (simp add: split_space isspace_space)
qed

section \<open>The code against the specification's reading\<close>

lemma rstrip_space_append:
  "rstrip_space (a @ b) = (if rstrip_space b = [] then rstrip_space a else a @ rstrip_space b)"
  by (auto simp add: rstrip_space_def dropWhile_append)

lemma rstrip_space_Nil: "rstrip_space [] = []"
  by (simp add: rstrip_space_def)

lemma rstrip_space_word:
  "w \<noteq> [] \<Longrightarrow> \<forall>c\<in>set w. \<not> isspace c \<Longrightarrow> rstrip_space w = w"
proof -
  assume ne: "w \<noteq> []" and ns: "\<forall>c\<in>set w. \<not> isspace c"
  then have "last w \<noteq> CHR '' ''" using isspace_space last_in_set by metis
  then have "hd (rev w) \<noteq> CHR '' ''" using ne by (simp add: hd_rev)
  moreover have "rev w \<noteq> []" using ne by simp
  ultimately have "dropWhile (\<lambda>c. c = CHR '' '') (rev w) = rev w"
    by (cases "rev w") simp_all
  then show ?thesis by (simp add: rstrip_space_def)
qed

lemma collapse_dropWhile:
  "dropWhile (\<lambda>c. c = CHR '' '') (collapse s) = collapse (dropWhile isspace s)"
proof (cases s)
  case Nil
  then show ?thesis by simp
next
  case (Cons c cs)
  show ?thesis
  proof (cases "isspace c")
    case True
    have "dropWhile (\<lambda>c. c = CHR '' '') (collapse r) = collapse r"
      if "r = [] \<or> \<not> isspace (hd r)" for r
      using that isspace_space by (cases r) auto
    moreover have "dropWhile isspace cs = [] \<or> \<not> isspace (hd (dropWhile isspace cs))"
      using hd_dropWhile [of isspace cs] by blast
    ultimately show ?thesis using True Cons by simp
  next
    case False
    then show ?thesis using Cons isspace_space by auto
  qed
qed

lemma collapse_word:
  "\<forall>c\<in>set w. \<not> isspace c \<Longrightarrow> collapse (w @ r) = w @ collapse r"
  by (induction w) simp_all

lemma join_Cons: "join sep (w # ws) = (if ws = [] then w else w @ sep @ join sep ws)"
  by (cases ws) simp_all

lemma join_eq_Nil: "\<forall>w\<in>set ws. w \<noteq> [] \<Longrightarrow> (join sep ws = []) = (ws = [])"
  by (cases ws) (simp_all add: join_Cons)

lemma join_split_eq_Nil: "(join sep (split s) = []) = (split s = [])"
  using split_words_all [of s] join_eq_Nil [of "split s" sep] by blast

lemma dropWhile_not_space_hd:
  "dropWhile (\<lambda>c. \<not> isspace c) s = d # r \<Longrightarrow> isspace d"
  using dropWhile_eq_Cons_conv [of "\<lambda>c. \<not> isspace c" s d r] by simp

lemma rstrip_space_single: "rstrip_space '' '' = []"
  by (simp add: rstrip_space_def)

lemma join_split_collapse:
  "join '' '' (split s) = rstrip_space (collapse (dropWhile isspace s))"
proof (induction s rule: split_induct)
  case Nil
  show ?case by (simp add: split_Nil rstrip_space_Nil)
next
  case (space c s)
  then show ?case by (simp add: split_space)
next
  case (word c s)
  let ?tw = "takeWhile (\<lambda>c. \<not> isspace c) s"
  let ?dw = "dropWhile (\<lambda>c. \<not> isspace c) s"
  let ?w = "c # ?tw"
  have w_ok: "\<forall>x\<in>set ?w. \<not> isspace x"
    using takeWhile_all [of "\<lambda>c. \<not> isspace c" s] word(1) by simp
  have w_strip: "rstrip_space ?w = ?w"
    by (rule rstrip_space_word [OF _ w_ok]) simp
  have s: "c # s = ?w @ ?dw" by simp
  have lhs: "join '' '' (split (c # s)) =
      (if split ?dw = [] then ?w else ?w @ '' '' @ join '' '' (split ?dw))"
    using word(1) by (simp add: split_word join_Cons)
  have "collapse (c # s) = ?w @ collapse ?dw"
    unfolding s by (rule collapse_word [OF w_ok])
  then have rhs: "rstrip_space (collapse (dropWhile isspace (c # s))) =
      rstrip_space (?w @ collapse ?dw)"
    using word(1) by simp
  show ?case
  proof (cases ?dw)
    case Nil
    have "split ?dw = []" unfolding Nil by (rule split_Nil)
    moreover have "collapse ?dw = []" unfolding Nil by simp
    ultimately show ?thesis unfolding lhs rhs
      by (simp only: append_Nil2 w_strip) simp
  next
    case (Cons d r)
    then have d: "isspace d" by (rule dropWhile_not_space_hd)
    let ?X = "collapse (dropWhile isspace ?dw)"
    have X: "collapse ?dw = '' '' @ ?X" using Cons d by simp
    have ih: "join '' '' (split ?dw) = rstrip_space ?X" by (rule word(2))
    have "rstrip_space (?w @ collapse ?dw) = rstrip_space ((?w @ '' '') @ ?X)"
      unfolding X by simp
    also have "\<dots> = (if rstrip_space ?X = [] then rstrip_space (?w @ '' '')
                       else (?w @ '' '') @ rstrip_space ?X)"
      by (rule rstrip_space_append)
    also have "rstrip_space (?w @ '' '') = ?w"
      using w_strip by (simp only: rstrip_space_append [of ?w] rstrip_space_single) simp
    finally have "rstrip_space (?w @ collapse ?dw) =
        (if rstrip_space ?X = [] then ?w else (?w @ '' '') @ rstrip_space ?X)" .
    then show ?thesis unfolding lhs rhs
      using ih join_split_eq_Nil [of "'' ''" ?dw] by simp
  qed
qed

lemma strip_space_collapse:
  "strip_space (collapse s) = rstrip_space (collapse (dropWhile isspace s))"
  by (simp add: strip_space_def rstrip_space_def collapse_dropWhile)

lemma normalize_refines: "normalize s = normalize_spec s"
  by (simp add: normalize_def normalize_spec_def join_split_collapse strip_space_collapse)

lemma normalize_lower_first: "normalize s = join '' '' (split (lower s))"
  by (simp add: normalize_def lower_join split_lower) (simp add: lower_def lower_char_space)

lemma normalize_collapse_lower:
  "normalize s = rstrip_space (dropWhile (\<lambda>c. c = CHR '' '') (collapse (lower s)))"
  by (simp add: normalize_lower_first join_split_collapse collapse_dropWhile)

lemma collapse_run:
  assumes "u \<noteq> []" and "list_all isspace u"
  shows "collapse (u @ s) = CHR '' '' # collapse (dropWhile isspace s)"
proof -
  from assms(1) obtain c u' where u: "u = c # u'" by (cases u) auto
  with assms(2) have c: "isspace c" and u': "\<forall>x\<in>set u'. isspace x"
    by (simp_all add: list_all_iff)
  from u' have "dropWhile isspace (u' @ s) = dropWhile isspace s"
    by (simp add: dropWhile_append)
  with c u show ?thesis by simp
qed

lemma list_all_isspace_lower: "list_all isspace (lower u) = list_all isspace u"
  by (simp add: lower_def list_all_iff isspace_lower_char)

lemma lower_append: "lower (u @ s) = lower u @ lower s"
  by (simp add: lower_def)

lemma lower_Cons: "lower (c # s) = lower_char c # lower s"
  by (simp add: lower_def)

lemma lower_eq_Nil: "(lower u = []) = (u = [])"
  by (simp add: lower_def)

lemma differ_only_collapse:
  "differ_only s t \<Longrightarrow> collapse (lower s) = collapse (lower t)"
proof (induction rule: differ_only.induct)
  case same_end
  show ?case by simp
next
  case (letter_case c d s t)
  have sp: "isspace (lower_char d) = isspace (lower_char c)"
    using letter_case(1) by simp
  have "collapse (dropWhile isspace (lower s)) = collapse (dropWhile isspace (lower t))"
    using letter_case(3) collapse_dropWhile [of "lower s"] collapse_dropWhile [of "lower t"]
    by simp
  with letter_case(1,3) sp show ?case by (simp add: lower_Cons)
next
  case (run_length u v s t)
  have u: "collapse (lower u @ lower s) = CHR '' '' # collapse (dropWhile isspace (lower s))"
    using run_length(1,3) by (intro collapse_run) (simp_all add: list_all_isspace_lower lower_eq_Nil)
  have v: "collapse (lower v @ lower t) = CHR '' '' # collapse (dropWhile isspace (lower t))"
    using run_length(2,4) by (intro collapse_run) (simp_all add: list_all_isspace_lower lower_eq_Nil)
  have "collapse (dropWhile isspace (lower s)) = collapse (dropWhile isspace (lower t))"
    using run_length(6) collapse_dropWhile [of "lower s"] collapse_dropWhile [of "lower t"]
    by simp
  with u v show ?case by (simp add: lower_append)
qed

lemma differ_only_normalize: "differ_only s t \<Longrightarrow> normalize s = normalize t"
  by (simp add: normalize_collapse_lower differ_only_collapse)

section \<open>Trimming\<close>

lemma rstrip_decomp: "rev (dropWhile P (rev xs)) @ rev (takeWhile P (rev xs)) = xs"
proof -
  have "rev (takeWhile P (rev xs) @ dropWhile P (rev xs)) = xs" by simp
  then show ?thesis by (simp only: rev_append)
qed

lemma dropWhile_hd: "dropWhile P xs \<noteq> [] \<Longrightarrow> \<not> P (hd (dropWhile P xs))"
  by (rule hd_dropWhile)

lemma rstrip_last:
  assumes "rev (dropWhile P (rev xs)) \<noteq> []"
  shows "\<not> P (last (rev (dropWhile P (rev xs))))"
proof -
  from assms have ne: "dropWhile P (rev xs) \<noteq> []" by simp
  then have "\<not> P (hd (dropWhile P (rev xs)))" by (rule hd_dropWhile)
  then show ?thesis using ne by (simp add: last_rev)
qed

lemma rstrip_hd:
  assumes "xs \<noteq> []" and "\<not> P (hd xs)"
  shows "rev (dropWhile P (rev xs)) \<noteq> [] \<and> hd (rev (dropWhile P (rev xs))) = hd xs"
proof -
  from assms obtain y ys where xs: "xs = y # ys" and y: "\<not> P y" by (cases xs) auto
  have "dropWhile P (rev ys @ [y]) = dropWhile P (rev ys) @ [y]"
    using y by (simp add: dropWhile_append)
  then have "rev (dropWhile P (rev xs)) = y # rev (dropWhile P (rev ys))"
    using xs by simp
  then show ?thesis using xs by simp
qed

lemma strip_Nil_iff: "(strip s = []) = (\<forall>c\<in>set s. isspace c)"
proof
  assume "strip s = []"
  then have all: "\<forall>x\<in>set (dropWhile isspace s). isspace x"
    by (simp add: strip_def dropWhile_eq_Nil_conv)
  have "dropWhile isspace s = []"
  proof (rule ccontr)
    assume ne: "dropWhile isspace s \<noteq> []"
    then have "\<not> isspace (hd (dropWhile isspace s))" by (rule hd_dropWhile)
    moreover have "hd (dropWhile isspace s) \<in> set (dropWhile isspace s)"
      using ne by (rule hd_in_set)
    ultimately show False using all by blast
  qed
  then show "\<forall>c\<in>set s. isspace c" using dropWhile_eq_Nil_conv [of isspace s] by blast
next
  assume "\<forall>c\<in>set s. isspace c"
  then show "strip s = []" by (auto simp add: strip_def dest: set_dropWhileD)
qed

lemma strip_ends:
  assumes "strip s \<noteq> []"
  shows "\<not> isspace (hd (strip s)) \<and> \<not> isspace (last (strip s))"
proof -
  let ?s' = "dropWhile isspace s"
  have ne: "?s' \<noteq> []"
  proof
    assume e: "?s' = []"
    have "strip s = []" unfolding strip_def e by simp
    with assms show False by simp
  qed
  then have h: "\<not> isspace (hd ?s')" by (rule hd_dropWhile)
  have "hd (strip s) = hd ?s'"
    using rstrip_hd [of ?s' isspace, OF ne h] by (simp add: strip_def)
  moreover have "\<not> isspace (last (strip s))"
    using assms rstrip_last [of isspace ?s'] by (simp add: strip_def)
  ultimately show ?thesis using h by simp
qed

lemma strip_fixed:
  assumes "v \<noteq> []" and "\<not> isspace (hd v)" and "\<not> isspace (last v)"
  shows "strip v = v"
proof -
  from assms(1,2) have d: "dropWhile isspace v = v" by (cases v) simp_all
  from assms(1,3) have "\<not> isspace (hd (rev v))" by (simp add: hd_rev)
  with assms(1) have "dropWhile isspace (rev v) = rev v" by (cases "rev v") simp_all
  with d show ?thesis by (simp add: strip_def)
qed

lemma strip_idem: "strip (strip s) = strip s"
proof (cases "strip s = []")
  case True
  have "strip [] = []" by (simp add: strip_def)
  with True show ?thesis by simp
next
  case False
  then show ?thesis using strip_ends [OF False] by (intro strip_fixed) simp_all
qed

lemma split_all_space: "\<forall>c\<in>set s. isspace c \<Longrightarrow> split s = []"
  by (induction s) (simp_all add: split_Nil split_space)

lemma split_Nil_iff: "(split s = []) = (\<forall>c\<in>set s. isspace c)"
proof (induction s rule: split_induct)
  case Nil
  show ?case by (simp add: split_Nil)
next
  case (space c s)
  then show ?case by (simp add: split_space)
next
  case (word c s)
  then show ?case by (simp add: split_word)
qed

lemma split_trailing:
  assumes b: "\<forall>x\<in>set b. isspace x"
  shows "split (a @ b) = split a"
proof (induction a rule: split_induct)
  case Nil
  show ?case using b by (simp add: split_all_space split_Nil)
next
  case (space c s)
  then show ?case by (simp add: split_space)
next
  case (word c s)
  let ?ns = "\<lambda>c. \<not> isspace c"
  have tb: "takeWhile ?ns b = []" using b by (cases b) simp_all
  have db: "dropWhile ?ns b = b" using b by (cases b) simp_all
  show ?case
  proof (cases "\<forall>x\<in>set s. \<not> isspace x")
    case True
    then have e: "takeWhile ?ns (s @ b) = s" "dropWhile ?ns (s @ b) = b"
      "takeWhile ?ns s = s" "dropWhile ?ns s = []"
      by (simp_all add: takeWhile_append dropWhile_append tb db)
    have "split (c # s @ b) = (c # s) # split b"
      using word(1) by (simp add: split_word e)
    moreover have "split (c # s) = (c # s) # split []"
      using word(1) by (simp add: split_word e)
    ultimately show ?thesis by (simp add: split_all_space [OF b] split_Nil)
  next
    case False
    then have "takeWhile ?ns (s @ b) = takeWhile ?ns s"
      "dropWhile ?ns (s @ b) = dropWhile ?ns s @ b"
      by (auto simp add: takeWhile_append dropWhile_append)
    then show ?thesis using word by (simp add: split_word)
  qed
qed

lemma split_strip: "split (strip s) = split s"
proof -
  let ?s' = "dropWhile isspace s"
  let ?t = "rev (takeWhile isspace (rev ?s'))"
  have t: "\<forall>x\<in>set ?t. isspace x" using takeWhile_all [of isspace "rev ?s'"] by simp
  have "split (strip s @ ?t) = split (strip s)" using t by (rule split_trailing)
  moreover have "strip s @ ?t = ?s'" unfolding strip_def by (rule rstrip_decomp)
  ultimately show ?thesis by (simp add: split_dropWhile)
qed

lemma normalize_strip: "normalize (strip s) = normalize s"
  by (simp add: normalize_def split_strip)

lemma normalize_Nil_iff: "(normalize s = []) = (strip s = [])"
  by (simp add: normalize_def lower_eq_Nil join_split_eq_Nil split_Nil_iff strip_Nil_iff)

section \<open>What the operations return\<close>

lemma fold_max_ge: "i \<in> set xs \<Longrightarrow> i \<le> fold max xs (a::nat)"
proof -
  assume "i \<in> set xs"
  then have "i \<le> Max (set (a # xs))" by (intro Max_ge) simp_all
  then show ?thesis by (simp only: Max.set_eq_fold)
qed

lemma row_id_less_next: "r \<in> set (rows t) \<Longrightarrow> row_id r < next_id t"
proof -
  assume "r \<in> set (rows t)"
  then have "row_id r \<in> set (map row_id (rows t))" by simp
  then have "row_id r \<le> fold max (map row_id (rows t)) 0" by (rule fold_max_ge)
  then show ?thesis by (simp add: next_id_def top_id_def)
qed

lemma fold_max_append: "fold max (xs @ [n]) (a::nat) = max n (fold max xs a)"
  by simp


lemma classify_Some:
  "classify (Some t) (Some r) =
     Inr (if strip r = [] then False_positive
          else if normalize r \<in> set (map value_norm (rows t)) then Redundant else Unique)"
  by (simp add: classify_def select_exists_def Let_def normalize_strip)

lemma classify_absent: "classify conn None = Inr False_positive"
  by (simp add: classify_def)

lemma classify_blank: "strip r = [] \<Longrightarrow> classify conn (Some r) = Inr False_positive"
  by (simp add: classify_def)

lemma classify_no_table:
  "strip r \<noteq> [] \<Longrightarrow> classify None (Some r) = Inl OperationalError"
  by (simp add: classify_def select_exists_def)

lemma insert_unique_absent:
  "insert_unique others now conn None = Inr (conn, [Out_false_positive])"
  by (simp add: insert_unique_def classify_absent)

lemma insert_unique_blank:
  "strip r = [] \<Longrightarrow> insert_unique others now conn (Some r) = Inr (conn, [Out_false_positive])"
  by (simp add: insert_unique_def classify_blank)

lemma insert_unique_no_table:
  "strip r \<noteq> [] \<Longrightarrow> insert_unique others now None (Some r) = Inl OperationalError"
  by (simp add: insert_unique_def classify_no_table)

lemma insert_unique_redundant:
  "strip r \<noteq> [] \<Longrightarrow> normalize r \<in> set (map value_norm (rows t)) \<Longrightarrow>
   insert_unique others now (Some t) (Some r) = Inr (Some t, [Out_redundant (Some r)])"
  by (simp add: insert_unique_def classify_Some)

lemma insert_unique_new:
  "strip r \<noteq> [] \<Longrightarrow> normalize r \<notin> set (map value_norm (rows t)) \<Longrightarrow>
   others (Some t) = Some t' \<Longrightarrow> normalize r \<notin> set (map value_norm (rows t')) \<Longrightarrow>
   top_id t' < max_rowid \<Longrightarrow>
   insert_unique others now (Some t) (Some r) =
     Inr (Some (add_row t' (strip r) (normalize r) now), [Out_inserted (strip r)])"
  by (simp add: insert_unique_def classify_Some insert_row_def Let_def normalize_strip)

lemma insert_unique_full:
  "strip r \<noteq> [] \<Longrightarrow> normalize r \<notin> set (map value_norm (rows t)) \<Longrightarrow>
   others (Some t) = Some t' \<Longrightarrow> max_rowid \<le> top_id t' \<Longrightarrow>
   insert_unique others now (Some t) (Some r) = Inl OperationalError"
  by (simp add: insert_unique_def classify_Some insert_row_def Let_def normalize_strip)

lemma insert_unique_conflict:
  "strip r \<noteq> [] \<Longrightarrow> normalize r \<notin> set (map value_norm (rows t)) \<Longrightarrow>
   others (Some t) = Some t' \<Longrightarrow> normalize r \<in> set (map value_norm (rows t')) \<Longrightarrow>
   top_id t' < max_rowid \<Longrightarrow>
   insert_unique others now (Some t) (Some r) = Inr (Some t', [Out_redundant (Some r)])"
  by (simp add: insert_unique_def classify_Some insert_row_def Let_def normalize_strip)

lemma insert_unique_dropped:
  "strip r \<noteq> [] \<Longrightarrow> normalize r \<notin> set (map value_norm (rows t)) \<Longrightarrow>
   others (Some t) = None \<Longrightarrow>
   insert_unique others now (Some t) (Some r) = Inl OperationalError"
  by (simp add: insert_unique_def classify_Some insert_row_def Let_def normalize_strip)

text \<open>What a call without interference can return.\<close>

lemma insert_unique_alone:
  assumes "insert_unique (\<lambda>d. d) now conn raw_value = Inr (conn', msgs)"
  shows "conn' = conn \<or>
    (\<exists>t r. conn = Some t \<and> raw_value = Some r \<and> strip r \<noteq> [] \<and>
       normalize r \<notin> set (map value_norm (rows t)) \<and>
       conn' = Some (add_row t (strip r) (normalize r) now))"
proof (cases raw_value)
  case None
  with assms show ?thesis by (simp add: insert_unique_absent)
next
  case (Some r)
  show ?thesis
  proof (cases "strip r = []")
    case True
    with assms Some show ?thesis by (simp add: insert_unique_blank)
  next
    case False
    show ?thesis
    proof (cases conn)
      case None
      with assms Some False show ?thesis by (simp add: insert_unique_no_table)
    next
      case (Some t)
      show ?thesis
      proof (cases "normalize r \<in> set (map value_norm (rows t))")
        case True
        with assms \<open>raw_value = Some r\<close> False Some show ?thesis
          by (simp add: insert_unique_redundant)
      next
        case nk: False
        show ?thesis
        proof (cases "top_id t < max_rowid")
          case True
          have "insert_unique (\<lambda>d. d) now (Some t) (Some r) =
              Inr (Some (add_row t (strip r) (normalize r) now), [Out_inserted (strip r)])"
            using False nk True by (intro insert_unique_new) simp_all
          with assms \<open>raw_value = Some r\<close> False Some nk show ?thesis by simp
        next
          case nr: False
          then have full: "max_rowid \<le> top_id t" by (rule leI)
          have "insert_unique (\<lambda>d. d) now (Some t) (Some r) = Inl OperationalError"
            using False nk full by (intro insert_unique_full) simp_all
          with assms \<open>raw_value = Some r\<close> Some show ?thesis by simp
        qed
      qed
    qed
  qed
qed


lemma init_db_cases:
  "init_db conn reset = Some \<lparr>rows = [], seq = 0\<rparr> \<or> (\<exists>t. conn = Some t \<and> init_db conn reset = conn)"
  by (cases conn) (simp_all add: init_db_def create_table_if_not_exists_def drop_table_if_exists_def)

lemma init_db_reset: "init_db conn True = Some \<lparr>rows = [], seq = 0\<rparr>"
  by (simp add: init_db_def create_table_if_not_exists_def drop_table_if_exists_def)

lemma entries_init_db: "entries (init_db conn reset) = [] \<or> init_db conn reset = conn"
  using init_db_cases [of conn reset] by (auto simp add: entries_def)

lemma entries_add_row:
  "entries (Some (add_row t v k now)) =
     rows t @ [\<lparr>row_id = next_id t, row_value = v, value_norm = k, created_at = now\<rparr>]"
  by (simp add: entries_def add_row_def)

lemma reachable_step [consumes 1, case_names fresh insert]:
  assumes "reachable conn"
    and "P []"
    and "\<And>t r now. reachable (Some t) \<Longrightarrow> P (rows t) \<Longrightarrow> strip r \<noteq> [] \<Longrightarrow>
           normalize r \<notin> set (map value_norm (rows t)) \<Longrightarrow>
           P (rows t @ [\<lparr>row_id = next_id t, row_value = strip r, value_norm = normalize r,
                         created_at = now\<rparr>])"
  shows "P (entries conn)"
  using assms(1)
proof (induction rule: reachable.induct)
  case fresh
  show ?case using assms(2) by (simp add: entries_def)
next
  case (init conn reset)
  then show ?case using entries_init_db [of conn reset] assms(2) by auto
next
  case (insert conn now raw_value conn' msgs)
  from insert_unique_alone [OF insert(2)] show ?case
  proof
    assume "conn' = conn"
    with insert(3) show ?thesis by simp
  next
    assume "\<exists>t r. conn = Some t \<and> raw_value = Some r \<and> strip r \<noteq> [] \<and>
       normalize r \<notin> set (map value_norm (rows t)) \<and>
       conn' = Some (add_row t (strip r) (normalize r) now)"
    then obtain t r where c: "conn = Some t" and r: "strip r \<noteq> []"
      and k: "normalize r \<notin> set (map value_norm (rows t))"
      and c': "conn' = Some (add_row t (strip r) (normalize r) now)" by blast
    have "P (rows t)" using insert(3) c by (simp add: entries_def)
    with insert(1) c r k show ?thesis unfolding c' entries_add_row by (intro assms(3)) simp_all
  qed
qed

lemma reachable_unique: "reachable conn \<Longrightarrow> distinct (map value_norm (entries conn))"
  by (induction rule: reachable_step) simp_all

lemma reachable_ascending: "reachable conn \<Longrightarrow> sorted_wrt (<) (map row_id (entries conn))"
proof (induction rule: reachable_step)
  case fresh
  show ?case by simp
next
  case (insert t r now)
  then show ?case by (simp add: sorted_wrt_append row_id_less_next)
qed

lemma reachable_rows:
  "reachable conn \<Longrightarrow>
   list_all (\<lambda>e. value_norm e = normalize (row_value e) \<and> row_value e \<noteq> [] \<and>
      \<not> isspace (hd (row_value e)) \<and> \<not> isspace (last (row_value e))) (entries conn)"
proof (induction rule: reachable_step)
  case fresh
  show ?case by simp
next
  case (insert t r now)
  then show ?case using strip_ends [of r] by (simp add: normalize_strip)
qed

lemma sort_key_eq_Nil: "(sort_key f xs = []) = (xs = [])"
proof -
  have "length (sort_key f xs) = length xs" by (rule length_sort)
  then show ?thesis by (metis length_0_conv)
qed

lemma show_data_Some:
  "show_data (Some t) =
     Inr (if rows t = [] then [Out_empty]
          else Out_entries # map (\<lambda>r. Out_row (row_id r, row_value r, created_at r))
                 (sort_key row_id (rows t)))"
  by (simp add: show_data_def select_all_def comp_def sort_key_eq_Nil)




lemma length_add_row: "length (rows (add_row t v k now)) = Suc (length (rows t))"
  by (simp add: add_row_def)

lemma keys_add_row:
  "set (map value_norm (rows (add_row t v k now))) = insert k (set (map value_norm (rows t)))"
  by (simp add: add_row_def)


lemma strip_decomp:
  "\<exists>a b. r = a @ strip r @ b \<and> list_all isspace a \<and> list_all isspace b"
proof -
  let ?a = "takeWhile isspace r"
  let ?s' = "dropWhile isspace r"
  let ?b = "rev (takeWhile isspace (rev ?s'))"
  have "strip r @ ?b = ?s'" unfolding strip_def by (rule rstrip_decomp)
  then have "r = ?a @ strip r @ ?b" by simp
  moreover have "list_all isspace ?a"
    using takeWhile_all [of isspace r] by (simp add: list_all_iff)
  moreover have "list_all isspace ?b"
    using takeWhile_all [of isspace "rev ?s'"] by (simp add: list_all_iff)
  ultimately show ?thesis by blast
qed

lemma insert_unique_inserted:
  assumes "insert_unique others now conn (Some r) = Inr (conn', [Out_inserted v])"
  shows "\<exists>t. others conn = Some t \<and> v = strip r \<and>
     normalize (strip r) \<notin> set (map value_norm (rows t)) \<and>
     conn' = Some (add_row t (strip r) (normalize (strip r)) now)"
proof (cases "classify conn (Some r)")
  case (Inl e)
  with assms show ?thesis by (simp add: insert_unique_def)
next
  case (Inr c)
  show ?thesis
  proof (cases c)
    case False_positive
    with assms Inr show ?thesis by (simp add: insert_unique_def)
  next
    case Redundant
    with assms Inr show ?thesis by (simp add: insert_unique_def)
  next
    case Unique
    show ?thesis
    proof (cases "others conn")
      case None
      with assms Inr Unique show ?thesis
        by (simp add: insert_unique_def insert_row_def Let_def)
    next
      case (Some t)
      with assms Inr Unique show ?thesis
        by (auto simp add: insert_unique_def insert_row_def Let_def split: if_splits)
    qed
  qed
qed

section \<open>The wider strings agree with the narrow ones\<close>

declare split_wide.simps [simp del]

lemma isspace_wide_of_char: "isspace_wide (of_char c) = isspace c"
  by (simp add: isspace_wide_def isspace_def Let_def)

lemma of_char_not_greek: "(of_char c :: nat) \<noteq> 931 \<and> (of_char c :: nat) \<noteq> 913"
proof -
  have "(of_char c :: nat) < 256" by (rule of_char_less)
  then show ?thesis by arith
qed

lemma to_lower_of_char: "to_lower (of_char c) = of_char (lower_char c)"
  using of_char_less [of c] of_char_not_greek [of c]
  by (auto simp add: to_lower_def lower_char_def Let_def of_char_of)

lemma covered_of_char: "list_all covered (map of_char s)"
  using of_char_less by (simp add: list_all_iff covered_def)

lemma split_wide_of_char: "split_wide (map of_char s) = map (map of_char) (split s)"
proof (induction s rule: split_induct)
  case Nil
  show ?case by (simp add: split_Nil split_wide.simps)
next
  case (space c s)
  have "split_wide (map of_char (c # s)) = split_wide (map of_char s)"
    using space(1)
    by (subst split_wide.simps, subst (2) split_wide.simps) (simp add: isspace_wide_of_char)
  with space show ?case by (simp add: split_space)
next
  case (word c s)
  have c: "(\<lambda>x. \<not> isspace_wide (of_char x)) = (\<lambda>x. \<not> isspace x)"
    by (simp add: isspace_wide_of_char)
  have "split_wide (map of_char (c # s)) =
      (of_char c # map of_char (takeWhile (\<lambda>c. \<not> isspace c) s))
        # split_wide (map of_char (dropWhile (\<lambda>c. \<not> isspace c) s))"
    using word(1)
    by (subst split_wide.simps)
      (simp add: isspace_wide_of_char takeWhile_map dropWhile_map comp_def c)
  with word show ?case by (simp add: split_word)
qed

lemma join_map: "join (map f sep) (map (map f) ws) = map f (join sep ws)"
  by (induction sep ws rule: join.induct) simp_all

lemma lower_from_of_char: "lower_from seen (map of_char s) = map of_char (lower s)"
proof (induction s arbitrary: seen)
  case Nil
  show ?case by (simp add: lower_def)
next
  case (Cons c s)
  have "(of_char c :: nat) \<noteq> 931" using of_char_not_greek [of c] by simp
  with Cons show ?case by (simp add: lower_def to_lower_of_char)
qed

lemma normalize_wide_of_char:
  "normalize_wide (map of_char s) = Some (map of_char (normalize s))"
proof -
  have sp: "[32::nat] = map of_char '' ''" by simp
  have "join [32] (split_wide (map of_char s)) = map of_char (join '' '' (split s))"
    unfolding sp split_wide_of_char by (rule join_map)
  then show ?thesis
    by (simp add: normalize_wide_def covered_of_char lower_wide_def lower_from_of_char
        normalize_def)
qed


section \<open>The session loop\<close>

lemma main_loop_reset:
  "lower (strip line) = ''reset'' \<Longrightarrow>
   main_loop conn ((line, now) # rest) =
     emit [Out_prompt, Out_reset, Out_empty] (main_loop (Some \<lparr>rows = [], seq = 0\<rparr>) rest)"
  by (simp add: init_db_reset show_data_Some)

lemma main_loop_show:
  "lower (strip line) = ''show'' \<Longrightarrow>
   main_loop (Some t) ((line, now) # rest) =
     (case show_data (Some t) of Inl e \<Rightarrow> (Uncaught e, Some t, [Out_prompt])
      | Inr shown \<Rightarrow> emit (Out_prompt # shown) (main_loop (Some t) rest))"
  by simp

lemma emit_emit: "emit a (emit b r) = emit (a @ b) r"
  by (cases r) (simp add: emit_def)

lemma db_emit: "fst (snd (emit os r)) = fst (snd r)"
  by (cases r) (simp add: emit_def)

lemma main_loop_reachable:
  "reachable conn \<Longrightarrow> reachable (fst (snd (main_loop conn stdin)))"
proof (induction stdin arbitrary: conn)
  case Nil
  then show ?case by simp
next
  case (Cons e stdin)
  obtain line now where e: "e = (line, now)" by (cases e)
  have reset: "reachable (init_db conn True)" using Cons(2) by (rule reachable.init)
  show ?case
  proof (cases "insert_unique (\<lambda>d. d) now conn (Some (strip line))")
    case (Inl err)
    with Cons(2) Cons(1) [OF Cons(2)] Cons(1) [OF reset] reset show ?thesis
      by (simp add: e Let_def db_emit split: sum.splits)
  next
    case (Inr res)
    obtain conn' msgs where res: "res = (conn', msgs)" by (cases res)
    have "reachable conn'" using Cons(2) Inr unfolding res by (rule reachable.insert)
    with Cons(2) Cons(1) [OF Cons(2)] Cons(1) [OF reset] Cons(1) [OF this] Inr res reset
    show ?thesis
      by (simp add: e Let_def db_emit split: sum.splits)
  qed
qed

lemma main_reachable:
  "reachable file \<Longrightarrow> reachable (fst (snd (main reset file stdin)))"
proof -
  assume "reachable file"
  then have "reachable (init_db (connect file) reset)"
    unfolding connect_def by (rule reachable.init)
  then show ?thesis by (simp add: main_def db_emit main_loop_reachable)
qed

section \<open>The example states are reachable\<close>

lemma reachable_one_row: "reachable (Some one_row)"
proof -
  have "reachable (init_db None False)" by (rule reachable.init [OF reachable.fresh])
  moreover have "insert_unique (\<lambda>d. d) ''t1'' (init_db None False) (Some ''Hello World'') =
      Inr (Some one_row, [Out_inserted ''Hello World''])" by code_simp
  ultimately show ?thesis by (rule reachable.insert)
qed

lemma reachable_two_rows: "reachable (Some two_rows)"
proof -
  have "insert_unique (\<lambda>d. d) ''t2'' (Some one_row) (Some ''  Foo  Bar '') =
      Inr (Some two_rows, [Out_inserted ''Foo  Bar''])" by code_simp
  with reachable_one_row show ?thesis by (rule reachable.insert)
qed

section \<open>The claims\<close>

text \<open>
  C1. No two rows share a \<open>value_norm\<close>. This holds in every state the program
  reaches, also at the end of every session; \<open>init_db\<close> (with or without reset)
  and \<open>insert_unique\<close> keep it, whatever another connection does between the
  check and the insert as long as it keeps it too; and \<open>insert_unique\<close> leaves the
  table alone when a row with the normalized key is already there.
\<close>

theorem value_norm_unique:
  "(reachable conn \<longrightarrow> distinct (map value_norm (entries conn))) \<and>
   (reachable conn \<longrightarrow>
      distinct (map value_norm (entries (fst (snd (main flag conn stdin)))))) \<and>
   (distinct (map value_norm (entries conn)) \<longrightarrow>
      distinct (map value_norm (entries (init_db conn reset)))) \<and>
   (distinct (map value_norm (entries conn)) \<and> distinct (map value_norm (entries (others conn))) \<and>
    insert_unique others now conn raw_value = Inr (conn', msgs) \<longrightarrow>
      distinct (map value_norm (entries conn'))) \<and>
   (normalize r \<in> set (map value_norm (entries conn)) \<longrightarrow>
      insert_unique (\<lambda>d. d) now conn (Some r) =
        Inr (conn, [if strip r = [] then Out_false_positive else Out_redundant (Some r)]))"
proof (intro conjI impI)
  assume "reachable conn"
  then show "distinct (map value_norm (entries conn))" by (rule reachable_unique)
next
  assume "reachable conn"
  then have "reachable (fst (snd (main flag conn stdin)))" by (rule main_reachable)
  then show "distinct (map value_norm (entries (fst (snd (main flag conn stdin)))))"
    by (rule reachable_unique)
next
  assume "distinct (map value_norm (entries conn))"
  then show "distinct (map value_norm (entries (init_db conn reset)))"
    using entries_init_db [of conn reset] by auto
next
  assume h: "distinct (map value_norm (entries conn)) \<and>
    distinct (map value_norm (entries (others conn))) \<and>
    insert_unique others now conn raw_value = Inr (conn', msgs)"
  show "distinct (map value_norm (entries conn'))"
  proof (cases "\<exists>v. msgs = [Out_inserted v]")
    case True
    then obtain v where v: "msgs = [Out_inserted v]" by blast
    from h v obtain r where r: "raw_value = Some r"
      by (cases raw_value) (simp_all add: insert_unique_absent)
    from insert_unique_inserted [of others now conn r conn' v] h v r
    obtain t where t: "others conn = Some t"
      and k: "normalize (strip r) \<notin> set (map value_norm (rows t))"
      and c': "conn' = Some (add_row t (strip r) (normalize (strip r)) now)" by blast
    from h t have "distinct (map value_norm (rows t))" by (simp add: entries_def)
    with k show ?thesis unfolding c' entries_add_row by simp
  next
    case False
    have "conn' = conn \<or> conn' = others conn"
    proof (cases "classify conn raw_value")
      case (Inl e)
      with h show ?thesis by (simp add: insert_unique_def)
    next
      case (Inr c)
      with h False show ?thesis
        by (cases c; cases raw_value)
          (auto simp add: insert_unique_def Let_def split: sum.splits error.splits)
    qed
    with h show ?thesis by auto
  qed
next
  assume k: "normalize r \<in> set (map value_norm (entries conn))"
  then obtain t where t: "conn = Some t" by (cases conn) (simp_all add: entries_def)
  with k have k': "normalize r \<in> set (map value_norm (rows t))" by (simp add: entries_def)
  show "insert_unique (\<lambda>d. d) now conn (Some r) =
        Inr (conn, [if strip r = [] then Out_false_positive else Out_redundant (Some r)])"
    using k' unfolding t by (simp add: insert_unique_blank insert_unique_redundant)
qed

theorem value_norm_unique_witness:
  "reachable (Some two_rows) \<and>
   distinct (map value_norm (entries (Some two_rows))) \<and>
   distinct (map value_norm (entries (init_db (Some two_rows) False))) \<and>
   fst (snd (main False (Some two_rows) [(''hello WORLD'', ''t3''), (''Baz'', ''t4'')])) =
     Some \<lparr>rows = rows two_rows @
       [\<lparr>row_id = 3, row_value = ''Baz'', value_norm = ''baz'', created_at = ''t4''\<rparr>],
       seq = 3\<rparr> \<and>
   distinct (map value_norm (entries
     (fst (snd (main False (Some two_rows) [(''hello WORLD'', ''t3''), (''Baz'', ''t4'')]))))) \<and>
   distinct (map value_norm (entries (Some \<lparr>rows = [], seq = 0\<rparr>))) \<and>
   distinct (map value_norm (entries (rival (Some \<lparr>rows = [], seq = 0\<rparr>)))) \<and>
   insert_unique rival ''t2'' (Some \<lparr>rows = [], seq = 0\<rparr>) (Some '' Foo '') =
     Inr (Some \<lparr>rows = [\<lparr>row_id = 1, row_value = ''hello  world'', value_norm = ''hello world'',
              created_at = ''t1''\<rparr>,
            \<lparr>row_id = 2, row_value = ''Foo'', value_norm = ''foo'', created_at = ''t2''\<rparr>],
            seq = 2\<rparr>, [Out_inserted ''Foo'']) \<and>
   distinct (map value_norm (entries (Some \<lparr>rows = [\<lparr>row_id = 1, row_value = ''hello  world'',
              value_norm = ''hello world'', created_at = ''t1''\<rparr>,
            \<lparr>row_id = 2, row_value = ''Foo'', value_norm = ''foo'', created_at = ''t2''\<rparr>],
            seq = 2\<rparr>))) \<and>
   normalize ''HELLO   world'' \<in> set (map value_norm (entries (Some two_rows))) \<and>
   insert_unique (\<lambda>d. d) ''t3'' (Some two_rows) (Some ''HELLO   world'') =
     Inr (Some two_rows, [Out_redundant (Some ''HELLO   world'')])"
proof -
  let ?e = "Some \<lparr>rows = [], seq = 0\<rparr>"
  let ?r = "Some \<lparr>rows = [\<lparr>row_id = 1, row_value = ''hello  world'', value_norm = ''hello world'',
              created_at = ''t1''\<rparr>,
            \<lparr>row_id = 2, row_value = ''Foo'', value_norm = ''foo'', created_at = ''t2''\<rparr>],
            seq = 2\<rparr>"
  have d0: "distinct (map value_norm (entries ?e))" by (simp add: entries_def)
  have d1: "distinct (map value_norm (entries (rival ?e)))" by code_simp
  have i: "insert_unique rival ''t2'' ?e (Some '' Foo '') = Inr (?r, [Out_inserted ''Foo''])"
    by code_simp
  have k: "normalize ''HELLO   world'' \<in> set (map value_norm (entries (Some two_rows)))"
    by code_simp
  have s: "strip ''HELLO   world'' \<noteq> []" by code_simp
  have m: "fst (snd (main False (Some two_rows) [(''hello WORLD'', ''t3''), (''Baz'', ''t4'')])) =
     Some \<lparr>rows = rows two_rows @
       [\<lparr>row_id = 3, row_value = ''Baz'', value_norm = ''baz'', created_at = ''t4''\<rparr>],
       seq = 3\<rparr>" by code_simp
  from value_norm_unique [where conn = "Some two_rows" and reset = False
      and r = "''HELLO   world''" and now = "''t3''" and flag = False
      and stdin = "[(''hello WORLD'', ''t3''), (''Baz'', ''t4'')]"] reachable_two_rows k s
  have a: "distinct (map value_norm (entries (Some two_rows))) \<and>
      distinct (map value_norm (entries (init_db (Some two_rows) False))) \<and>
      distinct (map value_norm (entries
        (fst (snd (main False (Some two_rows) [(''hello WORLD'', ''t3''), (''Baz'', ''t4'')]))))) \<and>
      insert_unique (\<lambda>d. d) ''t3'' (Some two_rows) (Some ''HELLO   world'') =
        Inr (Some two_rows, [Out_redundant (Some ''HELLO   world'')])" by simp
  from value_norm_unique [where conn = ?e and others = rival and now = "''t2''"
      and raw_value = "Some '' Foo ''" and conn' = ?r and msgs = "[Out_inserted ''Foo'']"] d0 d1 i
  have b: "distinct (map value_norm (entries ?r))" by blast
  from a b d0 d1 i k m reachable_two_rows show ?thesis by blast
qed

text \<open>
  C2. On a table that exists, \<open>classify\<close> returns \<open>false_positive\<close> exactly when the
  input is absent or empty after trimming; otherwise \<open>redundant\<close> exactly when a row
  holds the input's normalized key, and \<open>unique\<close> otherwise. It returns a
  classification and no table: it only reads.
\<close>

theorem classify_correct:
  "classify (Some t) raw_value =
     Inr (case raw_value of
            None \<Rightarrow> False_positive
          | Some r \<Rightarrow>
              if strip r = [] then False_positive
              else if normalize r \<in> set (map value_norm (rows t)) then Redundant
              else Unique)"
  by (cases raw_value) (simp_all add: classify_absent classify_Some)

theorem classify_correct_witness:
  "classify (Some \<lparr>rows = [\<lparr>row_id = 1, row_value = ''Hello World'',
        value_norm = ''hello world'', created_at = ''t1''\<rparr>], seq = 1\<rparr>)
     (Some ''  hello   WORLD  '') = Inr Redundant"
proof -
  have "strip ''  hello   WORLD  '' \<noteq> []" by code_simp
  moreover have "normalize ''  hello   WORLD  '' = ''hello world''" by code_simp
  ultimately show ?thesis
    using classify_correct [of "\<lparr>rows = [\<lparr>row_id = 1, row_value = ''Hello World'',
        value_norm = ''hello world'', created_at = ''t1''\<rparr>], seq = 1\<rparr>"
        "Some ''  hello   WORLD  ''"]
    by simp
qed

text \<open>
  C3, as stated: an absent or blank input and an input whose normalized key is stored
  leave the table as it was, and a value whose key is new is inserted the first time
  and reported as redundant the second time. The last part fails on a table that has
  held the largest id: the \<open>INSERT\<close> raises \<open>OperationalError\<close>, which
  \<open>insert_unique\<close> does not catch.
\<close>

theorem full_table_counterexample:
  "strip ''Hello World'' \<noteq> [] \<and>
   normalize ''Hello World'' \<notin> set (map value_norm (rows full_table)) \<and>
   classify (Some full_table) (Some ''Hello World'') = Inr Unique \<and>
   insert_unique (\<lambda>d. d) ''t1'' (Some full_table) (Some ''Hello World'') = Inl OperationalError"
  by code_simp

text \<open>
  C3, amended. An absent or blank input and an input whose normalized key is stored
  leave the table as it was. On a table that has not held the largest id, inserting a
  value whose key is new adds one row, and inserting a value with the same key again
  reports it as redundant and the table keeps its rows. On a table that has held the
  largest id the first insert raises \<open>OperationalError\<close>.
\<close>

theorem rejected_input_keeps_store:
  "insert_unique others now conn None = Inr (conn, [Out_false_positive]) \<and>
   (strip r = [] \<longrightarrow>
      insert_unique others now conn (Some r) = Inr (conn, [Out_false_positive])) \<and>
   (strip r \<noteq> [] \<and> normalize r \<in> set (map value_norm (rows t)) \<longrightarrow>
      insert_unique others now (Some t) (Some r) = Inr (Some t, [Out_redundant (Some r)])) \<and>
   (strip a \<noteq> [] \<and> normalize a \<notin> set (map value_norm (rows t)) \<and> normalize b = normalize a \<and>
    top_id t < max_rowid \<longrightarrow>
      (\<exists>t'. insert_unique (\<lambda>d. d) now (Some t) (Some a) = Inr (Some t', [Out_inserted (strip a)]) \<and>
            length (rows t') = Suc (length (rows t)) \<and>
            insert_unique (\<lambda>d. d) now' (Some t') (Some b) = Inr (Some t', [Out_redundant (Some b)]))) \<and>
   (strip a \<noteq> [] \<and> normalize a \<notin> set (map value_norm (rows t)) \<and> max_rowid \<le> top_id t \<longrightarrow>
      insert_unique (\<lambda>d. d) now (Some t) (Some a) = Inl OperationalError)"
proof (intro conjI impI)
  show "insert_unique others now conn None = Inr (conn, [Out_false_positive])"
    by (rule insert_unique_absent)
next
  assume "strip r = []"
  then show "insert_unique others now conn (Some r) = Inr (conn, [Out_false_positive])"
    by (rule insert_unique_blank)
next
  assume "strip r \<noteq> [] \<and> normalize r \<in> set (map value_norm (rows t))"
  then show "insert_unique others now (Some t) (Some r) = Inr (Some t, [Out_redundant (Some r)])"
    by (simp add: insert_unique_redundant)
next
  assume h: "strip a \<noteq> [] \<and> normalize a \<notin> set (map value_norm (rows t)) \<and>
    normalize b = normalize a \<and> top_id t < max_rowid"
  let ?t' = "add_row t (strip a) (normalize a) now"
  have first: "insert_unique (\<lambda>d. d) now (Some t) (Some a) = Inr (Some ?t', [Out_inserted (strip a)])"
    using h by (intro insert_unique_new) simp_all
  have "strip b \<noteq> []" using h normalize_Nil_iff [of a] normalize_Nil_iff [of b] by simp
  moreover have "normalize b \<in> set (map value_norm (rows ?t'))"
    using h by (simp only: keys_add_row) simp
  ultimately have second:
    "insert_unique (\<lambda>d. d) now' (Some ?t') (Some b) = Inr (Some ?t', [Out_redundant (Some b)])"
    by (rule insert_unique_redundant)
  from first second length_add_row [of t "strip a" "normalize a" now]
  show "\<exists>t'. insert_unique (\<lambda>d. d) now (Some t) (Some a) = Inr (Some t', [Out_inserted (strip a)]) \<and>
            length (rows t') = Suc (length (rows t)) \<and>
            insert_unique (\<lambda>d. d) now' (Some t') (Some b) = Inr (Some t', [Out_redundant (Some b)])"
    by blast
next
  assume "strip a \<noteq> [] \<and> normalize a \<notin> set (map value_norm (rows t)) \<and> max_rowid \<le> top_id t"
  then show "insert_unique (\<lambda>d. d) now (Some t) (Some a) = Inl OperationalError"
    using insert_unique_full [where r = a and t = t and others = "\<lambda>d. d" and t' = t and now = now]
    by simp
qed

theorem rejected_input_keeps_store_witness:
  "strip ''   '' = [] \<and>
   insert_unique (\<lambda>d. d) ''t2'' (Some \<lparr>rows = [], seq = 0\<rparr>) (Some ''   '') =
     Inr (Some \<lparr>rows = [], seq = 0\<rparr>, [Out_false_positive]) \<and>
   strip ''Hello World'' \<noteq> [] \<and>
   normalize ''Hello World'' \<notin> set (map value_norm (rows \<lparr>rows = [], seq = 0\<rparr>)) \<and>
   normalize ''  hello   world  '' = normalize ''Hello World'' \<and>
   top_id \<lparr>rows = [], seq = 0\<rparr> < max_rowid \<and>
   (\<exists>t'. insert_unique (\<lambda>d. d) ''t2'' (Some \<lparr>rows = [], seq = 0\<rparr>) (Some ''Hello World'') =
           Inr (Some t', [Out_inserted (strip ''Hello World'')]) \<and>
         length (rows t') = Suc (length (rows \<lparr>rows = [], seq = 0\<rparr>)) \<and>
         insert_unique (\<lambda>d. d) ''t3'' (Some t') (Some ''  hello   world  '') =
           Inr (Some t', [Out_redundant (Some ''  hello   world  '')])) \<and>
   strip ''HELLO world'' \<noteq> [] \<and>
   normalize ''HELLO world'' \<in> set (map value_norm (rows one_row)) \<and>
   insert_unique (\<lambda>d. d) ''t2'' (Some one_row) (Some ''HELLO world'') =
     Inr (Some one_row, [Out_redundant (Some ''HELLO world'')]) \<and>
   normalize ''Hello World'' \<notin> set (map value_norm (rows full_table)) \<and>
   max_rowid \<le> top_id full_table \<and>
   insert_unique (\<lambda>d. d) ''t2'' (Some full_table) (Some ''Hello World'') = Inl OperationalError"
proof -
  let ?e = "\<lparr>rows = [], seq = 0\<rparr>"
  have h1: "strip ''   '' = []" by code_simp
  have h2: "strip ''Hello World'' \<noteq> []" by code_simp
  have h3: "normalize ''Hello World'' \<notin> set (map value_norm (rows ?e))" by simp
  have h4: "normalize ''  hello   world  '' = normalize ''Hello World''" by code_simp
  have h5: "strip ''HELLO world'' \<noteq> []" by code_simp
  have h6: "normalize ''HELLO world'' \<in> set (map value_norm (rows one_row))" by code_simp
  have h7: "top_id ?e < max_rowid" by code_simp
  have h8: "normalize ''Hello World'' \<notin> set (map value_norm (rows full_table))" by code_simp
  have h9: "max_rowid \<le> top_id full_table" by code_simp
  from rejected_input_keeps_store [of "\<lambda>d. d" "''t2''" "Some ?e" "''   ''"] h1
  have c1: "insert_unique (\<lambda>d. d) ''t2'' (Some ?e) (Some ''   '') = Inr (Some ?e, [Out_false_positive])"
    by blast
  from rejected_input_keeps_store [where others = "\<lambda>d. d" and now = "''t2''" and t = one_row
      and r = "''HELLO world''"] h5 h6
  have c2: "insert_unique (\<lambda>d. d) ''t2'' (Some one_row) (Some ''HELLO world'') =
      Inr (Some one_row, [Out_redundant (Some ''HELLO world'')])" by blast
  from rejected_input_keeps_store [where now = "''t2''" and t = ?e and a = "''Hello World''"
      and b = "''  hello   world  ''" and now' = "''t3''"] h2 h3 h4 h7
  have c3: "\<exists>t'. insert_unique (\<lambda>d. d) ''t2'' (Some ?e) (Some ''Hello World'') =
           Inr (Some t', [Out_inserted (strip ''Hello World'')]) \<and>
         length (rows t') = Suc (length (rows ?e)) \<and>
         insert_unique (\<lambda>d. d) ''t3'' (Some t') (Some ''  hello   world  '') =
           Inr (Some t', [Out_redundant (Some ''  hello   world  '')])" by blast
  from rejected_input_keeps_store [where now = "''t2''" and t = full_table and a = "''Hello World''"]
    h2 h8 h9
  have c4: "insert_unique (\<lambda>d. d) ''t2'' (Some full_table) (Some ''Hello World'') =
      Inl OperationalError" by blast
  from h1 h2 h3 h4 h5 h6 h7 h8 h9 c1 c2 c3 c4 show ?thesis by blast
qed

text \<open>
  C4. When \<open>classify\<close> found no row with the key but the \<open>INSERT\<close> raises
  \<open>IntegrityError\<close>, because another connection stored the key in between,
  \<open>insert_unique\<close> returns normally and prints the line it prints for a duplicate
  that \<open>classify\<close> found.
\<close>

theorem insert_conflict_is_redundant:
  "(classify conn (Some r) = Inr Unique \<and>
    insert_row (others conn) (strip r) (normalize (strip r)) now = Inl IntegrityError \<longrightarrow>
      insert_unique others now conn (Some r) = Inr (others conn, [Out_redundant (Some r)])) \<and>
   (classify conn (Some r) = Inr Redundant \<longrightarrow>
      insert_unique others now conn (Some r) = Inr (conn, [Out_redundant (Some r)]))"
  by (simp add: insert_unique_def Let_def)

theorem insert_conflict_is_redundant_witness:
  "classify (Some \<lparr>rows = [], seq = 0\<rparr>) (Some ''Hello World'') = Inr Unique \<and>
   insert_row (rival (Some \<lparr>rows = [], seq = 0\<rparr>)) (strip ''Hello World'')
     (normalize (strip ''Hello World'')) ''t2'' = Inl IntegrityError \<and>
   insert_unique rival ''t2'' (Some \<lparr>rows = [], seq = 0\<rparr>) (Some ''Hello World'') =
     Inr (Some \<lparr>rows = [\<lparr>row_id = 1, row_value = ''hello  world'',
            value_norm = ''hello world'', created_at = ''t1''\<rparr>], seq = 1\<rparr>,
          [Out_redundant (Some ''Hello World'')])"
proof -
  let ?e = "Some \<lparr>rows = [], seq = 0\<rparr>"
  have h1: "classify ?e (Some ''Hello World'') = Inr Unique" by code_simp
  have h2: "insert_row (rival ?e) (strip ''Hello World'')
     (normalize (strip ''Hello World'')) ''t2'' = Inl IntegrityError" by code_simp
  have h3: "rival ?e = Some \<lparr>rows = [\<lparr>row_id = 1, row_value = ''hello  world'',
            value_norm = ''hello world'', created_at = ''t1''\<rparr>], seq = 1\<rparr>" by code_simp
  from insert_conflict_is_redundant [of ?e "''Hello World''" rival "''t2''"] h1 h2
  have "insert_unique rival ''t2'' ?e (Some ''Hello World'') =
      Inr (rival ?e, [Out_redundant (Some ''Hello World'')])" by blast
  with h1 h2 h3 show ?thesis by simp
qed




text \<open>
  C6, as stated: for every input string, strings that differ only in letter case
  have the same key. This fails beyond code point 255: capital alpha, capital sigma
  and small alpha, small sigma are the same two letters in two cases, and the first
  is normalized with a final sigma, the second is not.
\<close>

theorem capital_sigma_counterexample:
  "lower_wide [913] = lower_wide [945] \<and> lower_wide [931] = lower_wide [963] \<and>
   normalize_wide [913, 931] = Some [945, 962] \<and>
   normalize_wide [945, 963] = Some [945, 963] \<and>
   normalize_wide [913, 931] \<noteq> normalize_wide [945, 963]"
  by code_simp

text \<open>
  C6, amended. On strings of code points below 256, \<open>normalize\<close> returns what the
  specification describes: whitespace runs collapsed to one space, leading and
  trailing spaces removed, every character lowercased; two such strings that differ
  only in letter case or in the length of their whitespace runs have the same key;
  and on these strings the wider function above is this one. The function is total:
  \<open>split\<close>, its only loop, terminates on every string.
\<close>

theorem normalize_meets_spec:
  "normalize s = normalize_spec s \<and>
   (differ_only s1 s2 \<longrightarrow> normalize s1 = normalize s2) \<and>
   normalize_wide (map of_char s) = Some (map of_char (normalize s))"
  using normalize_refines [of s] differ_only_normalize [of s1 s2] normalize_wide_of_char [of s]
  by blast

theorem normalize_meets_spec_witness:
  "normalize ''  Ab   C '' = normalize_spec ''  Ab   C '' \<and> normalize_spec ''  Ab   C '' = ''ab c'' \<and>
   differ_only ''Ab   C'' ''aB c'' \<and> normalize ''Ab   C'' = normalize ''aB c'' \<and>
   normalize_wide (map of_char ''  Ab   C '') = Some (map of_char ''ab c'')"
proof -
  have c: "differ_only ''C'' ''c''"
    by (rule differ_only.letter_case [OF _ differ_only.same_end]) code_simp
  have "differ_only (''   '' @ ''C'') ('' '' @ ''c'')"
    by (rule differ_only.run_length [OF _ _ _ _ c]) (simp_all, code_simp+)
  then have r: "differ_only ''   C'' '' c''" by simp
  have b: "differ_only ''b   C'' ''B c''"
    by (rule differ_only.letter_case [OF _ r]) code_simp
  have d: "differ_only ''Ab   C'' ''aB c''"
    by (rule differ_only.letter_case [OF _ b]) code_simp
  have v: "normalize_spec ''  Ab   C '' = ''ab c''" by code_simp
  note th = normalize_meets_spec [of "''  Ab   C ''" "''Ab   C''" "''aB c''"]
  from th v have w: "normalize_wide (map of_char ''  Ab   C '') = Some (map of_char ''ab c'')"
    by simp
  from th d v w show ?thesis by blast
qed

text \<open>
  C7. \<open>normalize\<close> is idempotent: normalizing a normalized string changes nothing.
\<close>

theorem normalize_idempotent: "normalize (normalize s) = normalize s"
proof -
  let ?ws = "map lower (split s)"
  have words: "\<forall>w\<in>set ?ws. w \<noteq> [] \<and> (\<forall>c\<in>set w. \<not> isspace c)"
    using split_words [of _ s] by (auto simp add: lower_def isspace_lower_char)
  have n: "normalize s = join '' '' ?ws"
    by (simp add: normalize_def lower_join) (simp add: lower_def lower_char_space)
  have "normalize (normalize s) = lower (join '' '' (split (join '' '' ?ws)))"
    by (simp add: n) (simp add: normalize_def)
  also have "\<dots> = lower (join '' '' ?ws)" using split_join [OF words] by simp
  also have "\<dots> = lower (normalize s)" by (simp add: n)
  also have "\<dots> = normalize s" by (simp add: normalize_def lower_def lower_char_idem)
  finally show ?thesis .
qed

text \<open>
  C8. A reset empties the table whatever it held, and the listing that follows prints
  the empty notice: for the two functions, and for the commands \<open>reset\<close> and
  \<open>show\<close> typed one after the other.
\<close>

theorem reset_then_show_empty:
  "init_db conn True = Some \<lparr>rows = [], seq = 0\<rparr> \<and>
   show_data (init_db conn True) = Inr [Out_empty] \<and>
   (lower (strip line1) = ''reset'' \<and> lower (strip line2) = ''show'' \<longrightarrow>
      main_loop conn ((line1, now1) # (line2, now2) # rest) =
        emit [Out_prompt, Out_reset, Out_empty, Out_prompt, Out_empty]
          (main_loop (Some \<lparr>rows = [], seq = 0\<rparr>) rest))"
proof (intro conjI impI)
  show "init_db conn True = Some \<lparr>rows = [], seq = 0\<rparr>" by (rule init_db_reset)
next
  show "show_data (init_db conn True) = Inr [Out_empty]"
    by (simp add: init_db_reset show_data_Some)
next
  assume h: "lower (strip line1) = ''reset'' \<and> lower (strip line2) = ''show''"
  then have "main_loop conn ((line1, now1) # (line2, now2) # rest) =
      emit [Out_prompt, Out_reset, Out_empty]
        (main_loop (Some \<lparr>rows = [], seq = 0\<rparr>) ((line2, now2) # rest))"
    by (simp only: main_loop_reset)
  also have "main_loop (Some \<lparr>rows = [], seq = 0\<rparr>) ((line2, now2) # rest) =
      emit [Out_prompt, Out_empty] (main_loop (Some \<lparr>rows = [], seq = 0\<rparr>) rest)"
    using h by (simp add: main_loop_show show_data_Some del: main_loop.simps)
  finally show "main_loop conn ((line1, now1) # (line2, now2) # rest) =
        emit [Out_prompt, Out_reset, Out_empty, Out_prompt, Out_empty]
          (main_loop (Some \<lparr>rows = [], seq = 0\<rparr>) rest)"
    by (simp add: emit_emit del: main_loop.simps)
qed

theorem reset_then_show_empty_witness:
  "lower (strip '' ReSet '') = ''reset'' \<and> lower (strip ''SHOW'') = ''show'' \<and>
   main_loop (Some \<lparr>rows = [\<lparr>row_id = 1, row_value = ''Hello World'',
        value_norm = ''hello world'', created_at = ''t1''\<rparr>], seq = 1\<rparr>)
     [('' ReSet '', ''t2''), (''SHOW'', ''t3''), (''exit'', ''t4'')] =
     (Exit_ok, Some \<lparr>rows = [], seq = 0\<rparr>,
      [Out_prompt, Out_reset, Out_empty, Out_prompt, Out_empty, Out_prompt])"
proof -
  have h1: "lower (strip '' ReSet '') = ''reset''" by code_simp
  have h2: "lower (strip ''SHOW'') = ''show''" by code_simp
  have e: "main_loop (Some \<lparr>rows = [], seq = 0\<rparr>) [(''exit'', ''t4'')] =
      (Exit_ok, Some \<lparr>rows = [], seq = 0\<rparr>, [Out_prompt])" by code_simp
  from reset_then_show_empty
    [of "Some \<lparr>rows = [\<lparr>row_id = 1, row_value = ''Hello World'',
        value_norm = ''hello world'', created_at = ''t1''\<rparr>], seq = 1\<rparr>"
      "'' ReSet ''" "''SHOW''" "''t2''" "''t3''" "[(''exit'', ''t4'')]"] h1 h2
  have "main_loop (Some \<lparr>rows = [\<lparr>row_id = 1, row_value = ''Hello World'',
        value_norm = ''hello world'', created_at = ''t1''\<rparr>], seq = 1\<rparr>)
     [('' ReSet '', ''t2''), (''SHOW'', ''t3''), (''exit'', ''t4'')] =
     emit [Out_prompt, Out_reset, Out_empty, Out_prompt, Out_empty]
          (main_loop (Some \<lparr>rows = [], seq = 0\<rparr>) [(''exit'', ''t4'')])" by blast
  with h1 h2 show ?thesis by (simp add: e emit_def del: main_loop.simps)
qed

text \<open>
  C9. The listing holds each stored row once, sorted by id, whatever the order in
  which the table stores them; the ids are strictly ascending when no two rows share
  an id, as in every reachable state. The listing is empty exactly when the table is,
  and then \<open>show_data\<close> prints the empty notice instead of a list.
\<close>

theorem show_data_ordered:
  "(\<exists>rs. select_all (Some t) = Inr rs \<and>
      mset rs = mset (map (\<lambda>e. (row_id e, row_value e, created_at e)) (rows t)) \<and>
      sorted (map fst rs) \<and>
      (distinct (map row_id (rows t)) \<longrightarrow> sorted_wrt (<) (map fst rs)) \<and>
      (rs = []) = (rows t = []) \<and>
      show_data (Some t) =
        Inr (if rows t = [] then [Out_empty] else Out_entries # map Out_row rs)) \<and>
   (reachable (Some t) \<longrightarrow> distinct (map row_id (rows t)))"
proof (intro conjI impI)
  let ?rs = "map (\<lambda>e. (row_id e, row_value e, created_at e)) (sort_key row_id (rows t))"
  have ids: "map fst ?rs = map row_id (sort_key row_id (rows t))" by (simp add: comp_def)
  have 1: "select_all (Some t) = Inr ?rs" by (simp add: select_all_def)
  have 2: "mset ?rs = mset (map (\<lambda>e. (row_id e, row_value e, created_at e)) (rows t))"
    by simp
  have 3: "sorted (map fst ?rs)" unfolding ids by (rule sorted_sort_key)
  have 4: "sorted_wrt (<) (map fst ?rs)" if d: "distinct (map row_id (rows t))"
  proof -
    have "mset (map row_id (sort_key row_id (rows t))) = mset (map row_id (rows t))" by simp
    then have "distinct (map row_id (sort_key row_id (rows t)))"
      using d mset_eq_imp_distinct_iff by blast
    with 3 show ?thesis unfolding ids by (simp add: strict_sorted_iff)
  qed
  have 5: "(?rs = []) = (rows t = [])" by (simp add: sort_key_eq_Nil)
  have 6: "show_data (Some t) =
      Inr (if rows t = [] then [Out_empty] else Out_entries # map Out_row ?rs)"
    by (simp add: show_data_Some comp_def)
  from 1 2 3 4 5 6
  show "\<exists>rs. select_all (Some t) = Inr rs \<and>
      mset rs = mset (map (\<lambda>e. (row_id e, row_value e, created_at e)) (rows t)) \<and>
      sorted (map fst rs) \<and>
      (distinct (map row_id (rows t)) \<longrightarrow> sorted_wrt (<) (map fst rs)) \<and>
      (rs = []) = (rows t = []) \<and>
      show_data (Some t) =
        Inr (if rows t = [] then [Out_empty] else Out_entries # map Out_row rs)"
    by blast
next
  assume "reachable (Some t)"
  then have "sorted_wrt (<) (map row_id (rows t))"
    using reachable_ascending [of "Some t"] by (simp add: entries_def)
  then show "distinct (map row_id (rows t))" by (simp add: strict_sorted_iff)
qed

theorem show_data_ordered_witness:
  "distinct (map row_id (rows unordered_rows)) \<and>
   select_all (Some unordered_rows) =
     Inr [(1, ''Hello World'', ''t1''), (2, ''Foo  Bar'', ''t2'')] \<and>
   sorted_wrt (<) (map fst [(1::nat, ''Hello World'', ''t1''), (2, ''Foo  Bar'', ''t2'')]) \<and>
   show_data (Some unordered_rows) =
     Inr [Out_entries, Out_row (1, ''Hello World'', ''t1''), Out_row (2, ''Foo  Bar'', ''t2'')] \<and>
   reachable (Some two_rows) \<and> distinct (map row_id (rows two_rows)) \<and>
   show_data (Some \<lparr>rows = [], seq = 0\<rparr>) = Inr [Out_empty]"
proof -
  have d: "distinct (map row_id (rows unordered_rows))" by code_simp
  have s: "select_all (Some unordered_rows) =
      Inr [(1, ''Hello World'', ''t1''), (2, ''Foo  Bar'', ''t2'')]" by code_simp
  have ne: "rows unordered_rows \<noteq> []" by (simp add: unordered_rows_def)
  from show_data_ordered [of unordered_rows] s d ne
  have a: "sorted_wrt (<) (map fst [(1::nat, ''Hello World'', ''t1''), (2, ''Foo  Bar'', ''t2'')]) \<and>
    show_data (Some unordered_rows) =
     Inr [Out_entries, Out_row (1, ''Hello World'', ''t1''), Out_row (2, ''Foo  Bar'', ''t2'')]"
    by auto
  from show_data_ordered [of two_rows] reachable_two_rows
  have b: "distinct (map row_id (rows two_rows))" by blast
  from show_data_ordered [of "\<lparr>rows = [], seq = 0\<rparr>"]
  have c: "show_data (Some \<lparr>rows = [], seq = 0\<rparr>) = Inr [Out_empty]" by auto
  from a b c d s reachable_two_rows show ?thesis by blast
qed

text \<open>
  C10. In every reachable state each row's \<open>value_norm\<close> is \<open>normalize\<close> of its
  \<open>value\<close>, and the value is not empty and neither starts nor ends with
  whitespace. A row that \<open>insert_unique\<close> adds holds the trimmed input, and
  trimming removes whitespace at the two ends only.
\<close>

theorem stored_columns_related:
  "(reachable conn \<longrightarrow>
      (\<forall>e\<in>set (entries conn). value_norm e = normalize (row_value e) \<and> row_value e \<noteq> [] \<and>
         \<not> isspace (hd (row_value e)) \<and> \<not> isspace (last (row_value e)))) \<and>
   (insert_unique others now conn (Some r) = Inr (conn', [Out_inserted v]) \<longrightarrow>
      (\<exists>t. others conn = Some t \<and> v = strip r \<and>
         conn' = Some (add_row t (strip r) (normalize (strip r)) now))) \<and>
   (\<exists>a b. r = a @ strip r @ b \<and> list_all isspace a \<and> list_all isspace b)"
proof (intro conjI impI)
  assume "reachable conn"
  then show "\<forall>e\<in>set (entries conn). value_norm e = normalize (row_value e) \<and> row_value e \<noteq> [] \<and>
         \<not> isspace (hd (row_value e)) \<and> \<not> isspace (last (row_value e))"
    using reachable_rows [of conn] by (simp add: list_all_iff)
next
  assume "insert_unique others now conn (Some r) = Inr (conn', [Out_inserted v])"
  from insert_unique_inserted [OF this]
  show "\<exists>t. others conn = Some t \<and> v = strip r \<and>
         conn' = Some (add_row t (strip r) (normalize (strip r)) now)" by blast
next
  show "\<exists>a b. r = a @ strip r @ b \<and> list_all isspace a \<and> list_all isspace b"
    by (rule strip_decomp)
qed

theorem stored_columns_related_witness:
  "reachable (Some two_rows) \<and>
   insert_unique (\<lambda>d. d) ''t2'' (Some one_row) (Some ''  Foo  Bar '') =
     Inr (Some two_rows, [Out_inserted ''Foo  Bar'']) \<and>
   last (rows two_rows) = \<lparr>row_id = 2, row_value = ''Foo  Bar'', value_norm = ''foo bar'',
     created_at = ''t2''\<rparr> \<and>
   value_norm (last (rows two_rows)) = normalize (row_value (last (rows two_rows))) \<and>
   \<not> isspace (hd (row_value (last (rows two_rows)))) \<and>
   \<not> isspace (last (row_value (last (rows two_rows)))) \<and>
   ''Foo  Bar'' = strip ''  Foo  Bar ''"
proof -
  have i: "insert_unique (\<lambda>d. d) ''t2'' (Some one_row) (Some ''  Foo  Bar '') =
      Inr (Some two_rows, [Out_inserted ''Foo  Bar''])" by code_simp
  have l: "last (rows two_rows) = \<lparr>row_id = 2, row_value = ''Foo  Bar'',
      value_norm = ''foo bar'', created_at = ''t2''\<rparr>" by (simp add: two_rows_def)
  have m: "last (rows two_rows) \<in> set (entries (Some two_rows))"
    by (simp add: two_rows_def entries_def)
  from stored_columns_related [where conn = "Some two_rows"] reachable_two_rows m
  have a: "value_norm (last (rows two_rows)) = normalize (row_value (last (rows two_rows))) \<and>
      \<not> isspace (hd (row_value (last (rows two_rows)))) \<and>
      \<not> isspace (last (row_value (last (rows two_rows))))" by blast
  from stored_columns_related [where conn = "Some one_row" and others = "\<lambda>d. d" and now = "''t2''"
      and r = "''  Foo  Bar ''" and conn' = "Some two_rows" and v = "''Foo  Bar''"] i
  have "''Foo  Bar'' = strip ''  Foo  Bar ''" by blast
  with a i l reachable_two_rows show ?thesis by blast
qed

end
